theory Spec2Isabelle
  imports Main "HOL-Library.List_Lexorder" "HOL-Library.Char_ord"
begin

section \<open>Go values\<close>

text \<open>
  Go's \<^verbatim>\<open>int\<close> is taken at its 64-bit width. It is modelled by \<open>int\<close>; the only
  operation of the source that can leave the 64-bit range is the unary minus of
  \<^verbatim>\<open>First\<close> and \<^verbatim>\<open>Last\<close>, whose wrap-around at the minimum is written out in \<open>neg\<close>.
\<close>

definition int_min :: int where
  "int_min = - (2 ^ 63)"

definition neg :: "int \<Rightarrow> int" where
  "neg n = (if n = int_min then int_min else - n)"

definition len :: "'a list \<Rightarrow> int" where
  "len xs = int (length xs)"

text \<open>
  Every Go type has a zero value (\<^verbatim>\<open>var zero V\<close>); it is the \<open>default\<close> of the type
  class of that name: 0 for \<^verbatim>\<open>int\<close>, the nil slice for a slice type.
\<close>

instantiation int :: default
begin
definition default_int :: int where
  "default_int = 0"
instance ..
end

instantiation list :: (type) default
begin
definition default_list :: "'a list" where
  "default_list = []"
instance ..
end

text \<open>
  A value held in an \<^verbatim>\<open>any\<close>: the nil interface, or a value together with its dynamic type.
\<close>

datatype go_value = GoNil | GoBool bool | GoInt int | GoString string

text \<open>
  \<^verbatim>\<open>reflect.ValueOf(v).String()\<close> of Go's standard library, from its documentation: the
  string itself when the kind of \<open>v\<close> is String; otherwise it does not convert the value but
  returns a string of the form \<^verbatim>\<open><T Value>\<close> where \<open>T\<close> is the type of \<open>v\<close>
  (\<^verbatim>\<open><invalid Value>\<close> for the zero Value that the nil interface gives).
\<close>

fun reflect_String :: "go_value \<Rightarrow> string" where
  "reflect_String (GoString s) = s"
| "reflect_String GoNil = ''<invalid Value>''"
| "reflect_String (GoBool b) = ''<bool Value>''"
| "reflect_String (GoInt i) = ''<int Value>''"

section \<open>collection\_mappers.go: the default comparator\<close>

text \<open>\<^verbatim>\<open>func toString(v any) string { return reflect.ValueOf(v).String() }\<close>\<close>

definition toString :: "go_value \<Rightarrow> string" where
  "toString v = reflect_String v"

text \<open>
  \<^verbatim>\<open>DefaultSort\<close>: the operands of type \<open>V\<close> are given as the dynamic values that their
  conversion to \<^verbatim>\<open>any\<close> at the call of \<^verbatim>\<open>toString\<close> produces. Go compares strings
  bytewise, which is the lexicographic order on \<open>char list\<close>.
\<close>

definition DefaultSort :: "go_value \<Rightarrow> go_value \<Rightarrow> 'k \<Rightarrow> 'k \<Rightarrow> int" where
  "DefaultSort firstValue secondValue firstKey secondKey =
     (let x = toString firstValue;
          y = toString secondValue
      in if x < y then - 1
         else if y < x then 1
         else 0)"

section \<open>collection.go: storage\<close>

text \<open>
  The field \<^verbatim>\<open>items map[K]V\<close> of a \<^verbatim>\<open>Collection\<close> is a map \<open>'k \<rightharpoonup> 'v\<close>; a method
  takes the items of its receiver and, when it mutates them, returns the new items. The
  mutex guards against concurrent callers and has no sequential effect.

  A Go map has no iteration order: every \<^verbatim>\<open>range\<close> statement over a map visits its entries
  in an order that the runtime picks anew. A function that ranges over a map therefore takes,
  for each of its \<^verbatim>\<open>range\<close> statements, the list of entries in the order in which that
  statement yields them; \<open>range_of m r\<close> says that \<open>r\<close> is such a list for the map \<open>m\<close>.
\<close>

definition range_of :: "('k \<rightharpoonup> 'v) \<Rightarrow> ('k \<times> 'v) list \<Rightarrow> bool" where
  "range_of m r \<longleftrightarrow> distinct (map fst r) \<and> map_of r = m"

text \<open>The index expression \<^verbatim>\<open>m[k]\<close>: the zero value of \<open>V\<close> when the key is missing.\<close>

definition items_at :: "('k \<rightharpoonup> 'v::default) \<Rightarrow> 'k \<Rightarrow> 'v" where
  "items_at m k = (case m k of None \<Rightarrow> default | Some v \<Rightarrow> v)"

definition New :: "'k \<rightharpoonup> 'v" where
  "New = Map.empty"

definition Set :: "'k \<Rightarrow> 'v \<Rightarrow> ('k \<rightharpoonup> 'v) \<Rightarrow> ('k \<rightharpoonup> 'v)" where
  "Set key val c = c(key \<mapsto> val)"

definition Get :: "'k \<Rightarrow> ('k \<rightharpoonup> 'v::default) \<Rightarrow> 'v \<times> bool" where
  "Get key c = (items_at c key, c key \<noteq> None)"

definition Has :: "'k \<Rightarrow> ('k \<rightharpoonup> 'v) \<Rightarrow> bool" where
  "Has key c \<longleftrightarrow> c key \<noteq> None"

definition Size :: "('k \<rightharpoonup> 'v) \<Rightarrow> int" where
  "Size c = int (card (dom c))"

text \<open>\<^verbatim>\<open>keysUnlocked\<close>: \<^verbatim>\<open>for k := range c.items { keys = append(keys, k) }\<close>.\<close>

definition keysUnlocked :: "('k \<times> 'v) list \<Rightarrow> 'k list" where
  "keysUnlocked r = fold (\<lambda>(k, v) keys. keys @ [k]) r []"

text \<open>\<^verbatim>\<open>Clone\<close>: \<^verbatim>\<open>for k, v := range c.items { clone.items[k] = v }\<close>.\<close>

definition Clone :: "('k \<times> 'v) list \<Rightarrow> ('k \<rightharpoonup> 'v)" where
  "Clone r = fold (\<lambda>(k, v) clone. clone(k \<mapsto> v)) r New"

subsection \<open>Ensure\<close>

text \<open>
  The generator receives the key and the pointer to the collection and runs while no lock
  is held, so it may read and write the collection; it is a closure and may also change
  what it captured. It is modelled as a function that takes the items and a caller state
  \<open>'s\<close> and returns its result with the items and the state it leaves.
\<close>

type_synonym ('k, 'v, 's) generator =
  "'k \<Rightarrow> ('k \<rightharpoonup> 'v) \<Rightarrow> 's \<Rightarrow> 'v \<times> ('k \<rightharpoonup> 'v) \<times> 's"

definition Ensure ::
  "'k \<Rightarrow> ('k, 'v, 's) generator \<Rightarrow> ('k \<rightharpoonup> 'v) \<Rightarrow> 's \<Rightarrow> 'v \<times> ('k \<rightharpoonup> 'v) \<times> 's" where
  "Ensure key defaultValueGenerator c s =
     (case c key of
        Some val \<Rightarrow> (val, c, s)
      | None \<Rightarrow>
          (case defaultValueGenerator key c s of (def, c1, s1) \<Rightarrow>
             (case c1 key of
                Some val \<Rightarrow> (val, c1, s1)
              | None \<Rightarrow> (def, c1(key \<mapsto> def), s1))))"

subsection \<open>Positional access\<close>

definition At :: "('k \<times> 'v) list \<Rightarrow> ('k \<rightharpoonup> 'v::default) \<Rightarrow> int \<Rightarrow> 'v \<times> bool" where
  "At r c index =
     (let keys = keysUnlocked r;
          index = (if index < 0 then index + len keys else index)
      in if index < 0 \<or> index \<ge> len keys then (default, False)
         else (items_at c (keys ! nat index), True))"

definition KeyAt :: "('k::default \<times> 'v) list \<Rightarrow> int \<Rightarrow> 'k \<times> bool" where
  "KeyAt r index =
     (let keys = keysUnlocked r;
          index = (if index < 0 then index + len keys else index)
      in if index < 0 \<or> index \<ge> len keys then (default, False)
         else (keys ! nat index, True))"

subsection \<open>First and Last\<close>

text \<open>
  What a function with result type \<^verbatim>\<open>any\<close> returns here: \<^verbatim>\<open>nil\<close>, a value of type \<open>V\<close>,
  or a slice \<^verbatim>\<open>[]V\<close>.
\<close>

datatype 'v any = AnyNil | AnyValue 'v | AnySlice "'v list"

text \<open>
  \<^verbatim>\<open>First\<close> and \<^verbatim>\<open>Last\<close> call each other on a negative amount, and each call takes its
  own key snapshot. The first argument lists the entries that the range statement of
  \<^verbatim>\<open>keysUnlocked\<close> yields in this call and in the calls nested in it, one list per call.
  The result is \<open>None\<close> when the calls nest deeper than that list is long. The variadic
  \<^verbatim>\<open>amount ...int\<close> is the list of the arguments passed.
\<close>

fun First :: "('k \<times> 'v) list list \<Rightarrow> ('k \<rightharpoonup> 'v::default) \<Rightarrow> int list \<Rightarrow> 'v any option"
  and Last :: "('k \<times> 'v) list list \<Rightarrow> ('k \<rightharpoonup> 'v::default) \<Rightarrow> int list \<Rightarrow> 'v any option" where
  "First [] c amount = None"
| "First (r # rs) c amount =
     (let keys = keysUnlocked r
      in if len keys = 0 then Some AnyNil
         else (case amount of
                 [] \<Rightarrow> Some (AnyValue (items_at c (keys ! 0)))
               | n # more \<Rightarrow>
                   if n = 0 then Some AnyNil
                   else if n < 0 then Last rs c [neg n]
                   else if n \<ge> len keys then Some (AnySlice (map (\<lambda>k. items_at c k) keys))
                   else Some (AnySlice (map (\<lambda>i. items_at c (keys ! i)) [0..<nat n]))))"
| "Last [] c amount = None"
| "Last (r # rs) c amount =
     (let keys = keysUnlocked r
      in if len keys = 0 then Some AnyNil
         else (case amount of
                 [] \<Rightarrow> Some (AnyValue (items_at c (keys ! (length keys - 1))))
               | n # more \<Rightarrow>
                   if n < 0 then First rs c [neg n]
                   else if n = 0 then Some (AnySlice [])
                   else if n \<ge> len keys then Some (AnySlice (map (\<lambda>k. items_at c k) keys))
                   else Some (AnySlice (map (\<lambda>i. items_at c (keys ! i))
                                          [length keys - nat n..<length keys]))))"

subsection \<open>Set algebra\<close>

text \<open>
  \<^verbatim>\<open>Intersection\<close> ranges over the receiver's items (\<open>r\<close>) and looks each key up in
  \<open>other\<close>, whose values have any type.
\<close>

definition Intersection :: "('k \<times> 'v) list \<Rightarrow> ('k \<rightharpoonup> 'o) \<Rightarrow> ('k \<rightharpoonup> 'v)" where
  "Intersection r other =
     fold (\<lambda>(k, v) res. if other k \<noteq> None then res(k \<mapsto> v) else res) r New"

text \<open>
  \<^verbatim>\<open>Union\<close> clones the receiver (\<open>r\<close> is the range of the clone's loop) and ranges over the
  items of \<open>other\<close> (\<open>r_other\<close>).
\<close>

definition Union :: "('k \<times> 'v) list \<Rightarrow> ('k \<times> 'v) list \<Rightarrow> ('k \<rightharpoonup> 'v)" where
  "Union r r_other =
     fold (\<lambda>(k, v) res. if res k = None then res(k \<mapsto> v) else res) r_other (Clone r)"

subsection \<open>Ordering\<close>

text \<open>
  \<^verbatim>\<open>Reverse\<close>: the loop \<^verbatim>\<open>for i, j := 0, len(keys)-1; i < j; i, j = i+1, j-1\<close> swaps
  \<^verbatim>\<open>keys[i]\<close> and \<^verbatim>\<open>keys[j]\<close>; then the map is rebuilt from the keys.
\<close>

function reverse_loop :: "'k list \<Rightarrow> int \<Rightarrow> int \<Rightarrow> 'k list" where
  "reverse_loop keys i j =
     (if i < j
      then reverse_loop (keys[nat i := keys ! nat j, nat j := keys ! nat i]) (i + 1) (j - 1)
      else keys)"
  by pat_completeness auto
termination
  by (relation "measure (\<lambda>(keys, i, j). nat (j - i))") auto

definition Reverse :: "('k \<times> 'v) list \<Rightarrow> ('k \<rightharpoonup> 'v::default) \<Rightarrow> ('k \<rightharpoonup> 'v)" where
  "Reverse r c =
     (let keys = keysUnlocked r;
          keys = reverse_loop keys 0 (len keys - 1);
          newItems = fold (\<lambda>k newItems. newItems(k \<mapsto> items_at c k)) keys Map.empty
      in newItems)"

text \<open>
  \<^verbatim>\<open>sort.SliceStable\<close> of Go's standard library, from its contract: a stable sort by
  the function \<^verbatim>\<open>less\<close>. It is the library's insertion sort (its algorithm for up to 20
  elements): each element in turn moves left past its predecessors while it is less than
  them.
\<close>

fun sift :: "('a \<Rightarrow> 'a \<Rightarrow> bool) \<Rightarrow> 'a \<Rightarrow> 'a list \<Rightarrow> 'a list" where
  "sift lessFn x [] = [x]"
| "sift lessFn x (y # ys) = (if lessFn x y then y # sift lessFn x ys else x # y # ys)"

definition SliceStable :: "('a \<Rightarrow> 'a \<Rightarrow> bool) \<Rightarrow> 'a list \<Rightarrow> 'a list" where
  "SliceStable lessFn xs = rev (fold (sift lessFn) xs [])"

type_synonym ('k, 'v) Comparator = "'v \<Rightarrow> 'v \<Rightarrow> 'k \<Rightarrow> 'k \<Rightarrow> int"

definition Sort ::
  "('k \<times> 'v) list \<Rightarrow> ('k, 'v) Comparator \<Rightarrow> ('k \<rightharpoonup> 'v::default) \<Rightarrow> ('k \<rightharpoonup> 'v)" where
  "Sort r compare c =
     (let keys = keysUnlocked r;
          keys = SliceStable (\<lambda>ki kj. compare (items_at c ki) (items_at c kj) ki kj < 0) keys;
          newItems = fold (\<lambda>k newItems. newItems(k \<mapsto> items_at c k)) keys Map.empty
      in newItems)"

section \<open>Collections as objects\<close>

text \<open>
  \<^verbatim>\<open>ToReversed\<close> and \<^verbatim>\<open>ToSorted\<close> clone their receiver and then mutate the clone in
  place, so what they leave of the receiver depends on which object is which. A store lists
  the items of the \<^verbatim>\<open>Collection\<close> objects allocated so far; a \<^verbatim>\<open>*Collection\<close> is a position
  in it. A method takes the store and the pointer to its receiver and returns its result
  with the new store.
\<close>

type_synonym ('k, 'v) store = "('k \<rightharpoonup> 'v) list"

definition New_at :: "('k, 'v) store \<Rightarrow> nat \<times> ('k, 'v) store" where
  "New_at st = (length st, st @ [New])"

text \<open>\<open>r\<close>: the entries that the range over the items of \<open>c\<close> yields.\<close>

definition Clone_at :: "('k \<times> 'v) list \<Rightarrow> ('k, 'v) store \<Rightarrow> nat \<Rightarrow> nat \<times> ('k, 'v) store" where
  "Clone_at r st c =
     (case New_at st of (clone, st1) \<Rightarrow>
        (clone, st1[clone := fold (\<lambda>(k, v) items. items(k \<mapsto> v)) r (st1 ! clone)]))"

definition Reverse_at ::
  "('k \<times> 'v) list \<Rightarrow> ('k, 'v::default) store \<Rightarrow> nat \<Rightarrow> nat \<times> ('k, 'v) store" where
  "Reverse_at r st c = (c, st[c := Reverse r (st ! c)])"

definition Sort_at ::
  "('k \<times> 'v) list \<Rightarrow> ('k, 'v) Comparator \<Rightarrow> ('k, 'v::default) store \<Rightarrow> nat \<Rightarrow>
   nat \<times> ('k, 'v) store" where
  "Sort_at r compare st c = (c, st[c := Sort r compare (st ! c)])"

text \<open>
  \<^verbatim>\<open>return c.Clone().Reverse()\<close> and \<^verbatim>\<open>return c.Clone().Sort(compare)\<close>; \<open>r\<close> is
  what the range of \<^verbatim>\<open>Clone\<close> over the items of \<open>c\<close> yields, \<open>r_clone\<close> what the range
  of \<^verbatim>\<open>keysUnlocked\<close> over the items of the clone yields.
\<close>

definition ToReversed ::
  "('k \<times> 'v) list \<Rightarrow> ('k \<times> 'v) list \<Rightarrow> ('k, 'v::default) store \<Rightarrow> nat \<Rightarrow>
   nat \<times> ('k, 'v) store" where
  "ToReversed r r_clone st c =
     (case Clone_at r st c of (clone, st1) \<Rightarrow> Reverse_at r_clone st1 clone)"

definition ToSorted ::
  "('k \<times> 'v) list \<Rightarrow> ('k \<times> 'v) list \<Rightarrow> ('k, 'v) Comparator \<Rightarrow> ('k, 'v::default) store \<Rightarrow>
   nat \<Rightarrow> nat \<times> ('k, 'v) store" where
  "ToSorted r r_clone compare st c =
     (case Clone_at r st c of (clone, st1) \<Rightarrow> Sort_at r_clone compare st1 clone)"

section \<open>collection\_mappers.go: functional free operations\<close>

text \<open>
  The functions a caller passes in are Go closures: besides returning a value they may
  change what they captured (the repository's tests count calls that way). A callback is
  therefore a function that also takes the caller's state \<open>'s\<close> and returns the state it
  leaves; the operation threads the state through its calls in the order it makes them.
\<close>

subsection \<open>MergeCollection\<close>

record 'r Keep =
  Keep :: bool
  Value :: 'r

text \<open>
  \<^verbatim>\<open>keys := make(map[K]struct{})\<close>, filled by a range over \<^verbatim>\<open>c.items\<close> (\<open>r\<close>) and a range
  over \<^verbatim>\<open>other.items\<close> (\<open>r_other\<close>).
\<close>

definition merge_keys :: "('k \<times> 'v) list \<Rightarrow> ('k \<times> 'o) list \<Rightarrow> ('k \<rightharpoonup> unit)" where
  "merge_keys r r_other =
     fold (\<lambda>(k, v) keys. keys(k \<mapsto> ())) r_other
       (fold (\<lambda>(k, v) keys. keys(k \<mapsto> ())) r Map.empty)"

text \<open>The body of \<^verbatim>\<open>for k := range keys\<close>: the \<^verbatim>\<open>switch\<close> on membership.\<close>

definition merge_step ::
  "('k \<rightharpoonup> 'v::default) \<Rightarrow> ('k \<rightharpoonup> 'o::default) \<Rightarrow>
   ('v \<Rightarrow> 'k \<Rightarrow> 's \<Rightarrow> 'r Keep \<times> 's) \<Rightarrow> ('o \<Rightarrow> 'k \<Rightarrow> 's \<Rightarrow> 'r Keep \<times> 's) \<Rightarrow>
   ('v \<Rightarrow> 'o \<Rightarrow> 'k \<Rightarrow> 's \<Rightarrow> 'r Keep \<times> 's) \<Rightarrow>
   'k \<Rightarrow> ('k \<rightharpoonup> 'r) \<times> 's \<Rightarrow> ('k \<rightharpoonup> 'r) \<times> 's" where
  "merge_step c other whenInSelf whenInOther whenInBoth k acc =
     (case acc of (res, s) \<Rightarrow>
        (let inSelf = (c k \<noteq> None);
             inOther = (other k \<noteq> None)
         in if inSelf \<and> inOther then
              (case whenInBoth (items_at c k) (items_at other k) k s of (keep, s') \<Rightarrow>
                 (if Keep keep then res(k \<mapsto> Value keep) else res, s'))
            else if inSelf then
              (case whenInSelf (items_at c k) k s of (keep, s') \<Rightarrow>
                 (if Keep keep then res(k \<mapsto> Value keep) else res, s'))
            else if inOther then
              (case whenInOther (items_at other k) k s of (keep, s') \<Rightarrow>
                 (if Keep keep then res(k \<mapsto> Value keep) else res, s'))
            else (res, s)))"

text \<open>
  \<^verbatim>\<open>MergeCollection\<close>; \<open>r\<close>, \<open>r_other\<close> and \<open>r_keys\<close> are the entries its three range
  statements yield.
\<close>

definition MergeCollection ::
  "('k \<times> 'v) list \<Rightarrow> ('k \<times> 'o) list \<Rightarrow> ('k \<times> unit) list \<Rightarrow>
   ('k \<rightharpoonup> 'v::default) \<Rightarrow> ('k \<rightharpoonup> 'o::default) \<Rightarrow>
   ('v \<Rightarrow> 'k \<Rightarrow> 's \<Rightarrow> 'r Keep \<times> 's) \<Rightarrow> ('o \<Rightarrow> 'k \<Rightarrow> 's \<Rightarrow> 'r Keep \<times> 's) \<Rightarrow>
   ('v \<Rightarrow> 'o \<Rightarrow> 'k \<Rightarrow> 's \<Rightarrow> 'r Keep \<times> 's) \<Rightarrow>
   's \<Rightarrow> ('k \<rightharpoonup> 'r) \<times> 's" where
  "MergeCollection r r_other r_keys c other whenInSelf whenInOther whenInBoth s =
     fold (\<lambda>(k, u). merge_step c other whenInSelf whenInOther whenInBoth k) r_keys (New, s)"

subsection \<open>CombineEntries\<close>

text \<open>
  An entry is a \<^verbatim>\<open>[2]any\<close>. The type assertions \<^verbatim>\<open>entry[0].(K)\<close> and \<^verbatim>\<open>entry[1].(V)\<close>
  depend on the type arguments, so they are parameters: \<open>assertK x\<close> is \<open>None\<close> when the
  dynamic type of \<open>x\<close> is not \<open>K\<close>, and the source panics.
\<close>

datatype panic = InterfaceConversion

fun CombineEntries_loop ::
  "(go_value \<Rightarrow> 'k option) \<Rightarrow> (go_value \<Rightarrow> 'v option) \<Rightarrow>
   ('v \<Rightarrow> 'v \<Rightarrow> 'k \<Rightarrow> 's \<Rightarrow> 'v \<times> 's) \<Rightarrow>
   (go_value \<times> go_value) list \<Rightarrow> ('k \<rightharpoonup> 'v) \<Rightarrow> 's \<Rightarrow> panic + (('k \<rightharpoonup> 'v) \<times> 's)" where
  "CombineEntries_loop assertK assertV combine [] coll s = Inr (coll, s)"
| "CombineEntries_loop assertK assertV combine (entry # entries) coll s =
     (case assertK (fst entry) of
        None \<Rightarrow> Inl InterfaceConversion
      | Some k \<Rightarrow>
          (case assertV (snd entry) of
             None \<Rightarrow> Inl InterfaceConversion
           | Some v \<Rightarrow>
               (case coll k of
                  Some old \<Rightarrow>
                    (case combine old v k s of (new, s') \<Rightarrow>
                       CombineEntries_loop assertK assertV combine entries (coll(k \<mapsto> new)) s')
                | None \<Rightarrow>
                    CombineEntries_loop assertK assertV combine entries (coll(k \<mapsto> v)) s)))"

definition CombineEntries ::
  "(go_value \<Rightarrow> 'k option) \<Rightarrow> (go_value \<Rightarrow> 'v option) \<Rightarrow>
   (go_value \<times> go_value) list \<Rightarrow> ('v \<Rightarrow> 'v \<Rightarrow> 'k \<Rightarrow> 's \<Rightarrow> 'v \<times> 's) \<Rightarrow>
   's \<Rightarrow> panic + (('k \<rightharpoonup> 'v) \<times> 's)" where
  "CombineEntries assertK assertV entries combine s =
     CombineEntries_loop assertK assertV combine entries New s"

text \<open>The type assertions \<^verbatim>\<open>.(string)\<close> and \<^verbatim>\<open>.(int)\<close>.\<close>

fun assert_string :: "go_value \<Rightarrow> string option" where
  "assert_string (GoString s) = Some s"
| "assert_string v = None"

fun assert_int :: "go_value \<Rightarrow> int option" where
  "assert_int (GoInt i) = Some i"
| "assert_int v = None"

subsection \<open>GroupBy\<close>

text \<open>
  \<^verbatim>\<open>for i, item := range items\<close> over a slice visits the positions in order;
  \<^verbatim>\<open>res.items[k]\<close> of a missing key is the nil slice, to which \<^verbatim>\<open>append\<close> adds the item.
\<close>

definition GroupBy ::
  "'item list \<Rightarrow> ('item \<Rightarrow> int \<Rightarrow> 's \<Rightarrow> 'k \<times> 's) \<Rightarrow> 's \<Rightarrow> ('k \<rightharpoonup> 'item list) \<times> 's" where
  "GroupBy items keySelector s =
     fold (\<lambda>(i, item) (res, s).
             (case keySelector item (int i) s of (k, s') \<Rightarrow>
                (res(k \<mapsto> items_at res k @ [item]), s')))
       (enumerate 0 items) (New, s)"

section \<open>Example collections\<close>

text \<open>The collections \<open>A = {x:1, y:2}\<close> and \<open>B = {y:20, z:30}\<close> of the merge scenario.\<close>

definition A0 :: "string \<rightharpoonup> int" where
  "A0 = [''x'' \<mapsto> 1, ''y'' \<mapsto> 2]"

definition B0 :: "string \<rightharpoonup> int" where
  "B0 = [''y'' \<mapsto> 20, ''z'' \<mapsto> 30]"

text \<open>
  Two generators. \<open>gen_size\<close> is the generator of the repository's test of \<^verbatim>\<open>Ensure\<close>: it
  counts its calls in the variable it captured and returns ten times the size it sees.
  \<open>gen_sets_key\<close> calls \<^verbatim>\<open>collection.Set(key, 2)\<close> on the collection it is given and
  returns 1.
\<close>

definition gen_size :: "(string, int, nat) generator" where
  "gen_size key c calls = (Size c * 10, c, Suc calls)"

definition gen_sets_key :: "(string, int, unit) generator" where
  "gen_sets_key key c s = (1, Set key 2 c, s)"

definition C0 :: "string \<rightharpoonup> int" where
  "C0 = [''key1'' \<mapsto> 42]"

section \<open>Observing callbacks\<close>

text \<open>
  To state which calls an operation makes, a pure function is turned into a callback whose
  state is the list of the calls made so far: each call appends its arguments.
\<close>

definition logged_selector ::
  "('item \<Rightarrow> int \<Rightarrow> 'k) \<Rightarrow> 'item \<Rightarrow> int \<Rightarrow> ('item \<times> int) list \<Rightarrow> 'k \<times> ('item \<times> int) list" where
  "logged_selector f item index calls = (f item index, calls @ [(item, index)])"

text \<open>
  The items of a sequence that a selector sends to the key \<open>k\<close>, in the order of the
  sequence; \<open>n\<close> is the position of the first item.
\<close>

definition sent_to :: "('item \<Rightarrow> int \<Rightarrow> 'k) \<Rightarrow> nat \<Rightarrow> 'item list \<Rightarrow> 'k \<Rightarrow> 'item list" where
  "sent_to f n items k = map snd (filter (\<lambda>(i, item). f item (int i) = k) (enumerate n items))"

text \<open>The selector of the grouping scenario: \<^verbatim>\<open>item%2 == 0 ? "even" : "odd"\<close>.\<close>

definition parity :: "int \<Rightarrow> int \<Rightarrow> string" where
  "parity item index = (if item mod 2 = 0 then ''even'' else ''odd'')"

definition logged_combine ::
  "('v \<Rightarrow> 'v \<Rightarrow> 'k \<Rightarrow> 'v) \<Rightarrow> 'v \<Rightarrow> 'v \<Rightarrow> 'k \<Rightarrow> ('v \<times> 'v \<times> 'k) list \<Rightarrow> 'v \<times> ('v \<times> 'v \<times> 'k) list" where
  "logged_combine f a b k calls = (f a b k, calls @ [(a, b, k)])"

text \<open>
  The values that a sequence of typed entries holds for the key \<open>k\<close>, in order, and the
  calls of a log that were made for the key \<open>k\<close>.
\<close>

definition values_of :: "'k \<Rightarrow> ('k \<times> 'v) list \<Rightarrow> 'v list" where
  "values_of k kvs = map snd (filter (\<lambda>(k', v). k' = k) kvs)"

definition calls_for :: "'k \<Rightarrow> ('v \<times> 'v \<times> 'k) list \<Rightarrow> ('v \<times> 'v \<times> 'k) list" where
  "calls_for k calls = filter (\<lambda>(a, b, k'). k' = k) calls"

text \<open>
  The calls a left fold of \<open>combine\<close> makes, starting from the value \<open>a\<close>:
  \<open>combine(a, b1, k)\<close>, then \<open>combine(combine(a, b1, k), b2, k)\<close>, and so on.
\<close>

fun fold_calls :: "('v \<Rightarrow> 'v \<Rightarrow> 'k \<Rightarrow> 'v) \<Rightarrow> 'k \<Rightarrow> 'v \<Rightarrow> 'v list \<Rightarrow> ('v \<times> 'v \<times> 'k) list" where
  "fold_calls f k a [] = []"
| "fold_calls f k a (b # bs) = (a, b, k) # fold_calls f k (f a b k) bs"

text \<open>
  The value under a key, and the calls made for it, after the values \<open>vs\<close> arrive for a key
  that holds \<open>acc\<close> (\<open>None\<close>: the key is absent).
\<close>

fun stored :: "('v \<Rightarrow> 'v \<Rightarrow> 'k \<Rightarrow> 'v) \<Rightarrow> 'k \<Rightarrow> 'v option \<Rightarrow> 'v list \<Rightarrow> 'v option" where
  "stored f k acc [] = acc"
| "stored f k None (v # vs) = stored f k (Some v) vs"
| "stored f k (Some a) (v # vs) = stored f k (Some (f a v k)) vs"

fun made :: "('v \<Rightarrow> 'v \<Rightarrow> 'k \<Rightarrow> 'v) \<Rightarrow> 'k \<Rightarrow> 'v option \<Rightarrow> 'v list \<Rightarrow> ('v \<times> 'v \<times> 'k) list" where
  "made f k acc [] = []"
| "made f k None (v # vs) = made f k (Some v) vs"
| "made f k (Some a) (v # vs) = (a, v, k) # made f k (Some (f a v k)) vs"

text \<open>The combine function of the scenario: the product of the two values.\<close>

definition multiply :: "int \<Rightarrow> int \<Rightarrow> string \<Rightarrow> int" where
  "multiply firstValue secondValue key = firstValue * secondValue"

text \<open>A call of one of the three functions of a merge, with its arguments.\<close>

datatype ('k, 'v, 'o) merge_call = InSelf 'v 'k | InOther 'o 'k | InBoth 'v 'o 'k

definition logged_self ::
  "('v \<Rightarrow> 'k \<Rightarrow> 'r Keep) \<Rightarrow> 'v \<Rightarrow> 'k \<Rightarrow> ('k, 'v, 'o) merge_call list \<Rightarrow>
   'r Keep \<times> ('k, 'v, 'o) merge_call list" where
  "logged_self f v k calls = (f v k, calls @ [InSelf v k])"

definition logged_other ::
  "('o \<Rightarrow> 'k \<Rightarrow> 'r Keep) \<Rightarrow> 'o \<Rightarrow> 'k \<Rightarrow> ('k, 'v, 'o) merge_call list \<Rightarrow>
   'r Keep \<times> ('k, 'v, 'o) merge_call list" where
  "logged_other f w k calls = (f w k, calls @ [InOther w k])"

definition logged_both ::
  "('v \<Rightarrow> 'o \<Rightarrow> 'k \<Rightarrow> 'r Keep) \<Rightarrow> 'v \<Rightarrow> 'o \<Rightarrow> 'k \<Rightarrow> ('k, 'v, 'o) merge_call list \<Rightarrow>
   'r Keep \<times> ('k, 'v, 'o) merge_call list" where
  "logged_both f v w k calls = (f v w k, calls @ [InBoth v w k])"

text \<open>
  What the claim says about a key: the one function chosen by membership is called
  (\<open>merge_call_for\<close>, no call for a key in neither collection), and the decision it
  returns (\<open>merge_decision\<close>) puts its value into the result iff it says keep (\<open>committed\<close>).
\<close>

definition merge_call_for :: "('k \<rightharpoonup> 'v) \<Rightarrow> ('k \<rightharpoonup> 'o) \<Rightarrow> 'k \<Rightarrow> ('k, 'v, 'o) merge_call list" where
  "merge_call_for c other k =
     (case (c k, other k) of
        (Some v, Some w) \<Rightarrow> [InBoth v w k]
      | (Some v, None) \<Rightarrow> [InSelf v k]
      | (None, Some w) \<Rightarrow> [InOther w k]
      | (None, None) \<Rightarrow> [])"

definition merge_decision ::
  "('k \<rightharpoonup> 'v) \<Rightarrow> ('k \<rightharpoonup> 'o) \<Rightarrow> ('v \<Rightarrow> 'k \<Rightarrow> 'r Keep) \<Rightarrow> ('o \<Rightarrow> 'k \<Rightarrow> 'r Keep) \<Rightarrow>
   ('v \<Rightarrow> 'o \<Rightarrow> 'k \<Rightarrow> 'r Keep) \<Rightarrow> 'k \<Rightarrow> 'r Keep option" where
  "merge_decision c other whenInA whenInB whenInBoth k =
     (case (c k, other k) of
        (Some v, Some w) \<Rightarrow> Some (whenInBoth v w k)
      | (Some v, None) \<Rightarrow> Some (whenInA v k)
      | (None, Some w) \<Rightarrow> Some (whenInB w k)
      | (None, None) \<Rightarrow> None)"

definition committed :: "'r Keep option \<Rightarrow> 'r option" where
  "committed d = (case d of None \<Rightarrow> None | Some keep \<Rightarrow> if Keep keep then Some (Value keep) else None)"

text \<open>The functions of the merge scenario, and one that keeps nothing.\<close>

definition keep_value :: "int \<Rightarrow> string \<Rightarrow> int Keep" where
  "keep_value v k = \<lparr>Keep = True, Value = v\<rparr>"

definition keep_sum :: "int \<Rightarrow> int \<Rightarrow> string \<Rightarrow> int Keep" where
  "keep_sum a b k = \<lparr>Keep = True, Value = a + b\<rparr>"

definition drop_value :: "int \<Rightarrow> string \<Rightarrow> int Keep" where
  "drop_value v k = \<lparr>Keep = False, Value = 0\<rparr>"

section \<open>Properties\<close>

subsection \<open>Ranges and clones\<close>

lemma keysUnlocked_fold: "fold (\<lambda>(k, v) keys. keys @ [k]) r acc = acc @ map fst r"
  by (induction r arbitrary: acc) auto

lemma keysUnlocked_eq: "keysUnlocked r = map fst r"
  by (simp add: keysUnlocked_def keysUnlocked_fold)

lemma fold_store:
  "distinct (map fst r) \<Longrightarrow> fold (\<lambda>(k, v) m. m(k \<mapsto> v)) r m0 = m0 ++ map_of r"
proof (induction r arbitrary: m0)
  case Nil
  then show ?case by simp
next
  case (Cons e r)
  obtain k v where e: "e = (k, v)" by (cases e)
  from Cons.prems e have fresh: "k \<notin> dom (map_of r)"
    by (simp add: dom_map_of_conv_image_fst)
  have "fold (\<lambda>(k, v) m. m(k \<mapsto> v)) (e # r) m0 = fold (\<lambda>(k, v) m. m(k \<mapsto> v)) r (m0(k \<mapsto> v))"
    by (simp add: e)
  also from Cons.prems have "\<dots> = m0(k \<mapsto> v) ++ map_of r"
    by (intro Cons.IH) simp
  also have "\<dots> = (m0 ++ map_of r)(k \<mapsto> v)"
    using fresh by (rule map_add_upd_left)
  also have "\<dots> = m0 ++ map_of (e # r)"
    by (simp add: e)
  finally show ?case .
qed

lemma Clone_range: "range_of c r \<Longrightarrow> Clone r = c"
  by (simp add: Clone_def New_def range_of_def fold_store)

lemma range_of_dom: "range_of c r \<Longrightarrow> set (map fst r) = dom c"
  by (force simp: range_of_def dom_map_of_conv_image_fst)

lemma range_of_finite: "range_of c r \<Longrightarrow> finite (dom c)"
  by (auto simp: range_of_def finite_dom_map_of)

lemma range_of_Size: "range_of c r \<Longrightarrow> Size c = len r"
proof -
  assume r: "range_of c r"
  then have "card (dom c) = card (set (map fst r))"
    by (simp only: range_of_dom)
  also from r have "\<dots> = length (map fst r)"
    by (intro distinct_card) (simp add: range_of_def)
  finally show ?thesis by (simp add: Size_def len_def)
qed

subsection \<open>Loops that store into a map\<close>

lemma map_add_absent_step:
  "m0 k = None \<Longrightarrow> r k = None \<Longrightarrow> r ++ m0(k \<mapsto> v) = r(k \<mapsto> v) ++ m0"
  by (rule ext) (simp add: map_add_def split: option.split)

lemma map_add_present_step:
  "m0 k = Some w \<Longrightarrow> r ++ m0 = r(k \<mapsto> v) ++ m0"
  by (rule ext) (simp add: map_add_def split: option.split)

lemma restrict_absent_step:
  "other k = None \<Longrightarrow> m0 ++ (r |` dom other) = m0 ++ (r(k \<mapsto> v) |` dom other)"
  by (rule ext) (simp add: map_add_def restrict_map_def domIff split: option.split)

lemma restrict_present_step:
  "other k = Some w \<Longrightarrow> r k = None \<Longrightarrow>
   m0(k \<mapsto> v) ++ (r |` dom other) = m0 ++ (r(k \<mapsto> v) |` dom other)"
  by (rule ext) (simp add: map_add_def restrict_map_def domIff split: option.split)

lemma fold_store_absent:
  "distinct (map fst r) \<Longrightarrow>
   fold (\<lambda>(k, v) res. if res k = None then res(k \<mapsto> v) else res) r m0 = map_of r ++ m0"
proof (induction r arbitrary: m0)
  case Nil
  then show ?case by simp
next
  case (Cons e r)
  let ?f = "\<lambda>(k, v) res. if res k = None then res(k \<mapsto> v) else res"
  obtain k v where e: "e = (k, v)" by (cases e)
  from Cons.prems e have fresh: "map_of r k = None"
    by (simp add: map_of_eq_None_iff)
  from Cons.prems have d: "distinct (map fst r)" by simp
  have upd: "map_of (e # r) = (map_of r)(k \<mapsto> v)"
    by (simp add: e)
  show ?case
  proof (cases "m0 k")
    case None
    have "fold ?f (e # r) m0 = fold ?f r (m0(k \<mapsto> v))"
      using None by (simp add: e)
    also have "\<dots> = map_of r ++ m0(k \<mapsto> v)"
      using d by (rule Cons.IH)
    also have "\<dots> = (map_of r)(k \<mapsto> v) ++ m0"
      using None fresh by (rule map_add_absent_step)
    finally show ?thesis by (simp only: upd)
  next
    case (Some w)
    have "fold ?f (e # r) m0 = fold ?f r m0"
      using Some by (simp add: e)
    also have "\<dots> = map_of r ++ m0"
      using d by (rule Cons.IH)
    also have "\<dots> = (map_of r)(k \<mapsto> v) ++ m0"
      using Some by (rule map_add_present_step)
    finally show ?thesis by (simp only: upd)
  qed
qed

lemma fold_store_common:
  "distinct (map fst r) \<Longrightarrow>
   fold (\<lambda>(k, v) res. if other k \<noteq> None then res(k \<mapsto> v) else res) r m0
     = m0 ++ (map_of r |` dom other)"
proof (induction r arbitrary: m0)
  case Nil
  then show ?case by simp
next
  case (Cons e r)
  let ?f = "\<lambda>(k, v) res. if other k \<noteq> None then res(k \<mapsto> v) else res"
  obtain k v where e: "e = (k, v)" by (cases e)
  from Cons.prems e have fresh: "map_of r k = None"
    by (simp add: map_of_eq_None_iff)
  from Cons.prems have d: "distinct (map fst r)" by simp
  have upd: "map_of (e # r) = (map_of r)(k \<mapsto> v)"
    by (simp add: e)
  show ?case
  proof (cases "other k")
    case None
    have "fold ?f (e # r) m0 = fold ?f r m0"
      using None by (simp add: e)
    also have "\<dots> = m0 ++ (map_of r |` dom other)"
      using d by (rule Cons.IH)
    also have "\<dots> = m0 ++ ((map_of r)(k \<mapsto> v) |` dom other)"
      using None by (rule restrict_absent_step)
    finally show ?thesis by (simp only: upd)
  next
    case (Some w)
    have "fold ?f (e # r) m0 = fold ?f r (m0(k \<mapsto> v))"
      using Some by (simp add: e)
    also have "\<dots> = m0(k \<mapsto> v) ++ (map_of r |` dom other)"
      using d by (rule Cons.IH)
    also have "\<dots> = m0 ++ ((map_of r)(k \<mapsto> v) |` dom other)"
      using Some fresh by (rule restrict_present_step)
    finally show ?thesis by (simp only: upd)
  qed
qed

lemma Union_eq: "range_of A rA \<Longrightarrow> range_of B rB \<Longrightarrow> Union rA rB = B ++ A"
  by (simp add: Union_def Clone_range fold_store_absent range_of_def)

lemma Intersection_eq:
  assumes "range_of A r"
  shows "Intersection r other = A |` dom other"
proof -
  from assms have d: "distinct (map fst r)" and m: "map_of r = A"
    by (simp_all add: range_of_def)
  show ?thesis
    unfolding Intersection_def New_def fold_store_common [OF d] m by simp
qed

subsection \<open>Orders of the example collections\<close>

lemma range_A0_yx: "range_of A0 [(''y'', 2), (''x'', 1)]"
  by (auto simp: range_of_def A0_def)

lemma range_A0_xy: "range_of A0 [(''x'', 1), (''y'', 2)]"
  by (auto simp: range_of_def A0_def)

lemma range_B0_zy: "range_of B0 [(''z'', 30), (''y'', 20)]"
  by (auto simp: range_of_def B0_def)

subsection \<open>C1: Ensure\<close>

text \<open>
  C1, as amended. If \<open>k\<close> is present with value \<open>v\<close>, \<^verbatim>\<open>Ensure\<close> returns \<open>v\<close> and leaves the
  collection and the caller's state as they were, whatever the generator is: the generator
  is not run. If \<open>k\<close> is absent, the generator runs once on \<open>k\<close> and the collection; when
  \<open>k\<close> is still absent after it, its result is stored under \<open>k\<close> and returned; when the
  generator itself stored a value under \<open>k\<close>, that value stays and is returned, and the
  generator's result is dropped. In every case the value returned is the value stored under
  \<open>k\<close> when the call completes.
\<close>

theorem Ensure_contract:
  "(c k = Some v \<longrightarrow> Ensure k g c s = (v, c, s)) \<and>
   (c k = None \<longrightarrow>
      (case g k c s of (d, c1, s1) \<Rightarrow>
         (c1 k = None \<longrightarrow> Ensure k g c s = (d, c1(k \<mapsto> d), s1)) \<and>
         (\<forall>w. c1 k = Some w \<longrightarrow> Ensure k g c s = (w, c1, s1)))) \<and>
   (case Ensure k g c s of (ret, c', s') \<Rightarrow> c' k = Some ret)"
  by (simp add: Ensure_def split: option.split prod.split)

theorem Ensure_contract_witness:
  "C0 ''key1'' = Some 42 \<and> Ensure ''key1'' gen_size C0 0 = (42, C0, 0) \<and>
   C0 ''key2'' = None \<and> gen_size ''key2'' C0 0 = (10, C0, 1) \<and>
   Ensure ''key2'' gen_size C0 0 = (10, C0(''key2'' \<mapsto> 10), 1) \<and>
   (New :: string \<rightharpoonup> int) ''a'' = None \<and>
   gen_sets_key ''a'' New () = (1, [''a'' \<mapsto> 2], ()) \<and>
   Ensure ''a'' gen_sets_key New () = (2, [''a'' \<mapsto> 2], ())"
  using Ensure_contract [of C0 "''key1''" 42 gen_size 0]
    Ensure_contract [of C0 "''key2''" 0 gen_size 0]
    Ensure_contract [of New "''a''" 0 gen_sets_key "()"]
  by (simp add: C0_def gen_size_def Size_def gen_sets_key_def Set_def New_def)

text \<open>
  The claim as stated has the result of the generator stored under \<open>k\<close> whenever \<open>k\<close> was
  absent. On the empty collection with \<open>gen_sets_key\<close> the generator returns 1, and the
  value stored and returned is 2.
\<close>

theorem Ensure_stores_result_counterexample:
  "(New :: string \<rightharpoonup> int) ''a'' = None \<and>
   fst (gen_sets_key ''a'' New ()) = 1 \<and>
   Ensure ''a'' gen_sets_key New () = (2, [''a'' \<mapsto> 2], ()) \<and>
   fst (snd (Ensure ''a'' gen_sets_key New ())) ''a'' \<noteq> Some (fst (gen_sets_key ''a'' New ()))"
  by (simp add: Ensure_def gen_sets_key_def Set_def New_def)

subsection \<open>C2: the default comparator\<close>

lemma DefaultSort_strings:
  "DefaultSort (GoString a) (GoString b) k1 k2 = (if a < b then - 1 else if b < a then 1 else 0)"
  by (simp add: DefaultSort_def toString_def)

lemma DefaultSort_ints: "DefaultSort (GoInt a) (GoInt b) k1 k2 = 0"
  by (simp add: DefaultSort_def toString_def)

text \<open>
  C2. The claim expects two distinct integers to compare by their decimal string forms, so
  that \<open>DefaultSort 1 2\<close> is nonzero. The code converts with \<^verbatim>\<open>reflect.Value.String\<close>,
  which gives the same string \<^verbatim>\<open><int Value>\<close> for every integer: the comparator returns 0
  on the integers 1 and 2.
\<close>

theorem DefaultSort_int_1_2: "DefaultSort (GoInt 1) (GoInt 2) ''a'' ''b'' = 0"
  by (simp add: DefaultSort_def toString_def)

subsection \<open>C3: First and Last\<close>

lemma items_at_range:
  assumes "range_of c r"
  shows "map (\<lambda>k. items_at c k) (map fst r) = map snd r"
proof -
  have "items_at c (fst e) = snd e" if "e \<in> set r" for e
  proof -
    from assms have "distinct (map fst r)" and c: "c = map_of r"
      by (simp_all add: range_of_def)
    with that have "map_of r (fst e) = Some (snd e)"
      by (intro map_of_is_SomeI) simp_all
    then show ?thesis by (simp add: items_at_def c)
  qed
  then show ?thesis by simp
qed

lemma map_nth_slice:
  assumes "b \<le> length xs"
  shows "map (\<lambda>i. f (xs ! i)) [a..<b] = take (b - a) (drop a (map f xs))"
  using assms by (intro nth_equalityI) (auto simp: min_def)

lemma range_of_Nil: "range_of c [] \<longleftrightarrow> c = Map.empty"
  by (auto simp: range_of_def)

lemma neg_negative: "n < 0 \<Longrightarrow> n \<noteq> int_min \<Longrightarrow> neg n = - n"
  by (simp add: neg_def)

lemma neg_int_min: "neg int_min = int_min" "int_min < 0" "int_min \<noteq> 0"
  by (simp_all add: neg_def int_min_def)

text \<open>
  On a collection that is not empty, \<^verbatim>\<open>First\<close> and \<^verbatim>\<open>Last\<close> of the least \<^verbatim>\<open>int\<close> never
  return: its negation is itself, so each call makes the next one, however many snapshots
  are provided.
\<close>

lemma First_Last_min_int:
  fixes c :: "'k \<rightharpoonup> 'v::default"
  assumes "\<forall>r \<in> set rs. r \<noteq> []"
  shows "First rs c [int_min] = None \<and> Last rs c [int_min] = None"
  using assms
  by (induction rs) (simp_all add: keysUnlocked_eq len_def Let_def neg_int_min Let_def)

text \<open>
  C3, as amended. With \<open>r\<close> the key snapshot of the call and \<open>r'\<close> the one of the nested
  call: on an empty collection \<^verbatim>\<open>First\<close> and \<^verbatim>\<open>Last\<close> return \<^verbatim>\<open>nil\<close> for every amount.
  On a collection that is not empty, \<^verbatim>\<open>First(0)\<close> returns \<^verbatim>\<open>nil\<close> and \<^verbatim>\<open>Last(0)\<close> the empty
  sequence; for \<open>n < 0\<close> other than the least \<^verbatim>\<open>int\<close>, \<^verbatim>\<open>First(n)\<close> returns what the call
  \<^verbatim>\<open>Last(-n)\<close> it makes returns and \<^verbatim>\<open>Last(n)\<close> what \<^verbatim>\<open>First(-n)\<close> returns, and both
  return; for \<open>n\<close> at least the size both return all values in snapshot order; and for
  \<open>0 < n \<le> size\<close> they return the first, respectively last, \<open>n\<close> values of the snapshot.
\<close>

theorem First_Last_amounts:
  fixes c :: "'k \<rightharpoonup> 'v::default"
  assumes "range_of c r" and "range_of c r'"
  shows "(r = [] \<longrightarrow>
            First (r # rs) c amount = Some AnyNil \<and> Last (r # rs) c amount = Some AnyNil) \<and>
         (r \<noteq> [] \<longrightarrow>
            First (r # rs) c [0] = Some AnyNil \<and> Last (r # rs) c [0] = Some (AnySlice [])) \<and>
         (r \<noteq> [] \<and> n < 0 \<and> n \<noteq> int_min \<longrightarrow>
            First (r # r' # rs) c [n] = Last (r' # rs) c [- n] \<and>
            Last (r # r' # rs) c [n] = First (r' # rs) c [- n] \<and>
            First (r # r' # rs) c [n] \<noteq> None \<and> Last (r # r' # rs) c [n] \<noteq> None) \<and>
         (r \<noteq> [] \<and> Size c \<le> n \<longrightarrow>
            First (r # rs) c [n] = Some (AnySlice (map snd r)) \<and>
            Last (r # rs) c [n] = Some (AnySlice (map snd r))) \<and>
         (r \<noteq> [] \<and> 0 < n \<and> n \<le> Size c \<longrightarrow>
            First (r # rs) c [n] = Some (AnySlice (take (nat n) (map snd r))) \<and>
            Last (r # rs) c [n] = Some (AnySlice (drop (length r - nat n) (map snd r))))"
proof -
  have sz: "Size c = int (length r)" "Size c = int (length r')"
    using range_of_Size [OF assms(1)] range_of_Size [OF assms(2)] by (simp_all add: len_def)
  have vals: "map (\<lambda>k. items_at c k) (map fst r) = map snd r"
    using assms(1) by (rule items_at_range)
  then have vals': "map (items_at c \<circ> fst) r = map snd r"
    by simp
  have first_n: "map (\<lambda>i. items_at c (map fst r ! i)) [0..<nat m] = take (nat m) (map snd r)"
    if "m \<le> int (length r)" for m
    using that map_nth_slice [of "nat m" "map fst r" "\<lambda>k. items_at c k" 0] by (simp add: vals')
  have last_n: "map (\<lambda>i. items_at c (map fst r ! i)) [length r - nat m..<length r]
        = drop (length r - nat m) (map snd r)" for m
    using map_nth_slice [of "length r" "map fst r" "\<lambda>k. items_at c k" "length r - nat m"]
    by (simp add: vals')
  have empty: "First (r # rs) c amount = Some AnyNil \<and> Last (r # rs) c amount = Some AnyNil"
    if "r = []"
    using that by (simp add: keysUnlocked_eq len_def Let_def)
  have zero: "First (r # rs) c [0] = Some AnyNil \<and> Last (r # rs) c [0] = Some (AnySlice [])"
    if "r \<noteq> []"
    using that by (simp add: keysUnlocked_eq len_def Let_def)
  have big: "First (r # rs) c [n] = Some (AnySlice (map snd r)) \<and>
             Last (r # rs) c [n] = Some (AnySlice (map snd r))"
    if "r \<noteq> []" "Size c \<le> n"
  proof -
    from that sz(1) have "0 < n" "int (length r) \<le> n"
      by (cases r; simp)+
    with that(1) show ?thesis
      by (simp add: keysUnlocked_eq len_def Let_def vals')
  qed
  have mid: "First (r # rs) c [n] = Some (AnySlice (take (nat n) (map snd r))) \<and>
             Last (r # rs) c [n] = Some (AnySlice (drop (length r - nat n) (map snd r)))"
    if "r \<noteq> []" "0 < n" "n \<le> Size c"
    using that sz(1) first_n [of n] last_n [of n]
    by (cases "n = int (length r)") (simp_all add: keysUnlocked_eq len_def Let_def vals')
  have nonempty': "r' \<noteq> []" if "r \<noteq> []"
    using that sz by auto
  have neg: "First (r # r' # rs) c [n] = Last (r' # rs) c [- n] \<and>
             Last (r # r' # rs) c [n] = First (r' # rs) c [- n] \<and>
             First (r # r' # rs) c [n] \<noteq> None \<and> Last (r # r' # rs) c [n] \<noteq> None"
    if "r \<noteq> []" "n < 0" "n \<noteq> int_min"
  proof -
    have d: "First (r # r' # rs) c [n] = Last (r' # rs) c [- n]"
      "Last (r # r' # rs) c [n] = First (r' # rs) c [- n]"
      using that by (simp_all add: keysUnlocked_eq len_def Let_def neg_negative)
    have "Last (r' # rs) c [- n] \<noteq> None" "First (r' # rs) c [- n] \<noteq> None"
      using that nonempty' by (simp_all add: keysUnlocked_eq len_def Let_def)
    with d show ?thesis by simp
  qed
  from empty zero neg big mid show ?thesis by blast
qed

lemma range_empty: "range_of (Map.empty :: string \<rightharpoonup> int) []"
  by (simp add: range_of_def)

theorem First_Last_amounts_witness:
  "range_of A0 [(''y'', 2), (''x'', 1)] \<and> range_of A0 [(''x'', 1), (''y'', 2)] \<and>
   First [[(''y'', 2), (''x'', 1)], [(''x'', 1), (''y'', 2)]] A0 [- 1] = Some (AnySlice [2]) \<and>
   Last [[(''y'', 2), (''x'', 1)], [(''x'', 1), (''y'', 2)]] A0 [- 1] = Some (AnySlice [1]) \<and>
   First [[(''y'', 2), (''x'', 1)]] A0 [5] = Some (AnySlice [2, 1]) \<and>
   Last [[(''y'', 2), (''x'', 1)]] A0 [5] = Some (AnySlice [2, 1]) \<and>
   First [[(''y'', 2), (''x'', 1)]] A0 [1] = Some (AnySlice [2]) \<and>
   Last [[(''y'', 2), (''x'', 1)]] A0 [1] = Some (AnySlice [1]) \<and>
   First [[(''y'', 2), (''x'', 1)]] A0 [0] = Some AnyNil \<and>
   Last [[(''y'', 2), (''x'', 1)]] A0 [0] = Some (AnySlice []) \<and>
   First [[]] (Map.empty :: string \<rightharpoonup> int) [3] = Some AnyNil \<and>
   Last [[]] (Map.empty :: string \<rightharpoonup> int) [3] = Some AnyNil"
  using First_Last_amounts [OF range_A0_yx range_A0_xy, of "[]" "[]" "- 1"]
    First_Last_amounts [OF range_A0_yx range_A0_xy, of "[]" "[]" 5]
    First_Last_amounts [OF range_A0_yx range_A0_xy, of "[]" "[]" 1]
    First_Last_amounts [OF range_empty range_empty, of "[]" "[3]" 3]
    range_A0_yx range_A0_xy
  by (simp add: int_min_def Size_def A0_def keysUnlocked_def len_def items_at_def)

text \<open>
  The claim as stated has \<^verbatim>\<open>First(0)\<close> return an empty sequence, and \<^verbatim>\<open>Last(0)\<close> and
  \<^verbatim>\<open>First(n)\<close> beyond the size do so on the empty collection. The code returns \<^verbatim>\<open>nil\<close>
  there, which is not a sequence.
\<close>

theorem First_zero_counterexample:
  "range_of A0 [(''y'', 2), (''x'', 1)] \<and>
   First [[(''y'', 2), (''x'', 1)]] A0 [0] = Some AnyNil \<and>
   First [[(''y'', 2), (''x'', 1)]] A0 [0] \<noteq> Some (AnySlice []) \<and>
   range_of (Map.empty :: string \<rightharpoonup> int) [] \<and>
   Last [[]] (Map.empty :: string \<rightharpoonup> int) [0] = Some AnyNil \<and>
   Last [[]] (Map.empty :: string \<rightharpoonup> int) [0] \<noteq> Some (AnySlice []) \<and>
   First [[]] (Map.empty :: string \<rightharpoonup> int) [1] = Some AnyNil \<and>
   First [[]] (Map.empty :: string \<rightharpoonup> int) [1] \<noteq> Some (AnySlice [])"
  using range_A0_yx range_empty
  by (simp add: keysUnlocked_def len_def)

subsection \<open>C4: MergeCollection\<close>

lemma dom_fold_keys:
  "dom (fold (\<lambda>(k, v) keys. keys(k \<mapsto> ())) r m) = dom m \<union> fst ` set r"
  by (induction r arbitrary: m) auto

lemma dom_merge_keys: "dom (merge_keys r r_other) = fst ` set r \<union> fst ` set r_other"
  by (simp add: merge_keys_def dom_fold_keys)

lemma merge_step_logged:
  "merge_step c other (logged_self fA) (logged_other fB) (logged_both fAB) k (res, calls)
   = (case committed (merge_decision c other fA fB fAB k) of None \<Rightarrow> res | Some x \<Rightarrow> res(k \<mapsto> x),
      calls @ merge_call_for c other k)"
  by (auto simp: merge_step_def logged_self_def logged_other_def logged_both_def
      merge_call_for_def merge_decision_def committed_def items_at_def Let_def
      split: option.splits)

lemma merge_fold:
  assumes "distinct (map fst r_keys)" and "\<forall>k \<in> fst ` set r_keys. res k = None"
  shows "fold (\<lambda>(k, u). merge_step c other (logged_self fA) (logged_other fB) (logged_both fAB) k)
           r_keys (res, calls)
       = (\<lambda>k. if k \<in> fst ` set r_keys then committed (merge_decision c other fA fB fAB k)
               else res k,
          calls @ concat (map (merge_call_for c other) (map fst r_keys)))"
  using assms
proof (induction r_keys arbitrary: res calls)
  case Nil
  then show ?case by simp
next
  case (Cons e r_keys)
  obtain k u where e: "e = (k, u)" by (cases e)
  let ?step = "\<lambda>(k, u). merge_step c other (logged_self fA) (logged_other fB) (logged_both fAB) k"
  let ?res = "case committed (merge_decision c other fA fB fAB k) of None \<Rightarrow> res | Some x \<Rightarrow> res(k \<mapsto> x)"
  from Cons.prems e have fresh: "k \<notin> fst ` set r_keys" and d: "distinct (map fst r_keys)"
    and none: "res k = None" "\<forall>k' \<in> fst ` set r_keys. res k' = None"
    by auto
  have none': "\<forall>k' \<in> fst ` set r_keys. ?res k' = None"
    using none fresh by (auto split: option.split)
  have "fold ?step (e # r_keys) (res, calls) = fold ?step r_keys (?res, calls @ merge_call_for c other k)"
    by (simp add: e merge_step_logged)
  also have "\<dots> = (\<lambda>k'. if k' \<in> fst ` set r_keys then committed (merge_decision c other fA fB fAB k')
               else ?res k',
          (calls @ merge_call_for c other k) @ concat (map (merge_call_for c other) (map fst r_keys)))"
    using d none' by (rule Cons.IH)
  also have "(\<lambda>k'. if k' \<in> fst ` set r_keys then committed (merge_decision c other fA fB fAB k')
               else ?res k')
           = (\<lambda>k'. if k' \<in> fst ` set (e # r_keys) then committed (merge_decision c other fA fB fAB k')
               else res k')"
    using none(1) by (auto simp: e fun_eq_iff split: option.split)
  finally show ?case by (simp add: e)
qed

lemma length_merge_calls:
  assumes "distinct ks" and "set ks = dom c \<union> dom other"
  shows "length (concat (map (merge_call_for c other) ks)) = card (dom c \<union> dom other)"
proof -
  have one: "length (merge_call_for c other k) = 1" if "k \<in> set ks" for k
    using that assms(2) by (auto simp: merge_call_for_def split: option.split)
  have "length (concat (map (merge_call_for c other) ks)) = length ks"
    using one by (induction ks) simp_all
  also have "\<dots> = card (set ks)"
    using assms(1) by (simp add: distinct_card)
  finally show ?thesis by (simp only: assms(2))
qed

text \<open>
  C4. Whatever orders the three range statements take, the keys \<^verbatim>\<open>MergeCollection\<close> visits
  are exactly the keys of \<open>A\<close> or \<open>B\<close>, each once; the calls it makes are, key by key in
  that order, the one call that membership chooses (so as many calls as there are keys);
  and a key is in the result, with the returned value, iff the decision returned for it
  says keep.
\<close>

theorem MergeCollection_by_membership:
  assumes "range_of c r" and "range_of other r_other"
    and "range_of (merge_keys r r_other) r_keys"
  shows "distinct (map fst r_keys) \<and> set (map fst r_keys) = dom c \<union> dom other \<and>
         MergeCollection r r_other r_keys c other
             (logged_self whenInA) (logged_other whenInB) (logged_both whenInBoth) []
           = (\<lambda>k. committed (merge_decision c other whenInA whenInB whenInBoth k),
              concat (map (merge_call_for c other) (map fst r_keys))) \<and>
         length (snd (MergeCollection r r_other r_keys c other
             (logged_self whenInA) (logged_other whenInB) (logged_both whenInBoth) []))
           = card (dom c \<union> dom other)"
proof -
  from assms(3) have d: "distinct (map fst r_keys)"
    by (simp add: range_of_def)
  have "set (map fst r_keys) = dom (merge_keys r r_other)"
    using assms(3) by (rule range_of_dom)
  also have "\<dots> = set (map fst r) \<union> set (map fst r_other)"
    by (simp add: dom_merge_keys)
  also have "\<dots> = dom c \<union> dom other"
    using assms(1,2) by (simp only: range_of_dom)
  finally have keys: "set (map fst r_keys) = dom c \<union> dom other" .
  have absent: "committed (merge_decision c other whenInA whenInB whenInBoth k) = None"
    if "k \<notin> fst ` set r_keys" for k
  proof -
    from that keys have "c k = None" "other k = None" by auto
    then show ?thesis by (simp add: merge_decision_def committed_def)
  qed
  have "MergeCollection r r_other r_keys c other
             (logged_self whenInA) (logged_other whenInB) (logged_both whenInBoth) []
      = (\<lambda>k. if k \<in> fst ` set r_keys then committed (merge_decision c other whenInA whenInB whenInBoth k)
              else New k,
         [] @ concat (map (merge_call_for c other) (map fst r_keys)))"
    unfolding MergeCollection_def using d by (intro merge_fold) (simp_all add: New_def)
  also have "(\<lambda>k. if k \<in> fst ` set r_keys then committed (merge_decision c other whenInA whenInB whenInBoth k)
              else New k)
           = (\<lambda>k. committed (merge_decision c other whenInA whenInB whenInBoth k))"
    using absent by (auto simp: fun_eq_iff New_def)
  finally have m: "MergeCollection r r_other r_keys c other
             (logged_self whenInA) (logged_other whenInB) (logged_both whenInBoth) []
           = (\<lambda>k. committed (merge_decision c other whenInA whenInB whenInBoth k),
              concat (map (merge_call_for c other) (map fst r_keys)))"
    by simp
  from d keys m length_merge_calls [OF d keys] show ?thesis
    by simp
qed

lemma range_keys_A0_B0:
  "range_of (merge_keys [(''y'', 2 :: int), (''x'', 1)] [(''z'', 30 :: int), (''y'', 20)])
     [(''z'', ()), (''x'', ()), (''y'', ())]"
  by (auto simp: range_of_def merge_keys_def fun_eq_iff)

text \<open>The scenario of the spec: the result is \<open>{x:1, y:22, z:30}\<close>.\<close>

theorem MergeCollection_by_membership_witness:
  "range_of A0 [(''y'', 2), (''x'', 1)] \<and> range_of B0 [(''z'', 30), (''y'', 20)] \<and>
   range_of (merge_keys [(''y'', 2 :: int), (''x'', 1)] [(''z'', 30 :: int), (''y'', 20)])
     [(''z'', ()), (''x'', ()), (''y'', ())] \<and>
   MergeCollection [(''y'', 2), (''x'', 1)] [(''z'', 30), (''y'', 20)]
       [(''z'', ()), (''x'', ()), (''y'', ())] A0 B0
       (logged_self keep_value) (logged_other keep_value) (logged_both keep_sum) []
     = ([''x'' \<mapsto> 1, ''y'' \<mapsto> 22, ''z'' \<mapsto> 30],
        [InOther 30 ''z'', InSelf 1 ''x'', InBoth 2 20 ''y''])"
  using MergeCollection_by_membership [OF range_A0_yx range_B0_zy range_keys_A0_B0,
      of keep_value keep_value keep_sum]
    range_A0_yx range_B0_zy range_keys_A0_B0
  by (auto simp: A0_def B0_def merge_decision_def committed_def merge_call_for_def
      keep_value_def keep_sum_def fun_eq_iff)

lemma MergeCollection_drop:
  "fst (MergeCollection [(''y'', 2), (''x'', 1)] [(''z'', 30), (''y'', 20)]
       [(''z'', ()), (''x'', ()), (''y'', ())] A0 B0
       (logged_self drop_value) (logged_other keep_value) (logged_both keep_sum) [])
     = [''y'' \<mapsto> 22, ''z'' \<mapsto> 30]"
  by (auto simp: MergeCollection_def merge_step_logged A0_def B0_def merge_decision_def
      committed_def keep_value_def keep_sum_def drop_value_def New_def fun_eq_iff)

subsection \<open>C5: CombineEntries\<close>

lemma stored_Some: "stored f k (Some a) vs = Some (foldl (\<lambda>a b. f a b k) a vs)"
  by (induction vs arbitrary: a) simp_all

lemma made_Some: "made f k (Some a) vs = fold_calls f k a vs"
  by (induction vs arbitrary: a) simp_all

lemma length_fold_calls: "length (fold_calls f k a vs) = length vs"
  by (induction vs arbitrary: a) simp_all

lemma values_of_Cons:
  "values_of k ((k0, v0) # kvs) = (if k0 = k then v0 # values_of k kvs else values_of k kvs)"
  by (simp add: values_of_def)

lemma calls_for_snoc:
  "calls_for k (calls @ [(a, b, k0)]) = calls_for k calls @ (if k0 = k then [(a, b, k0)] else [])"
  by (simp add: calls_for_def)

lemma CombineEntries_loop_typed:
  assumes "list_all2 (\<lambda>entry (k, v). assertK (fst entry) = Some k \<and> assertV (snd entry) = Some v)
             entries kvs"
  shows "\<exists>coll' calls'.
           CombineEntries_loop assertK assertV (logged_combine f) entries coll calls
             = Inr (coll', calls') \<and>
           (\<forall>k. coll' k = stored f k (coll k) (values_of k kvs) \<and>
                calls_for k calls' = calls_for k calls @ made f k (coll k) (values_of k kvs))"
  using assms
proof (induction entries kvs arbitrary: coll calls rule: list_all2_induct)
  case Nil
  then show ?case by (simp add: values_of_def)
next
  case (Cons entry entries kv kvs)
  obtain k0 v0 where kv: "kv = (k0, v0)" by (cases kv)
  from Cons.hyps(1) kv have a: "assertK (fst entry) = Some k0" "assertV (snd entry) = Some v0"
    by simp_all
  show ?case
  proof (cases "coll k0")
    case None
    have step: "CombineEntries_loop assertK assertV (logged_combine f) (entry # entries) coll calls
        = CombineEntries_loop assertK assertV (logged_combine f) entries (coll(k0 \<mapsto> v0)) calls"
      using None a by simp
    from Cons.IH [of "coll(k0 \<mapsto> v0)" calls] obtain coll' calls' where
      r: "CombineEntries_loop assertK assertV (logged_combine f) entries (coll(k0 \<mapsto> v0)) calls
            = Inr (coll', calls')"
      and p: "\<And>k. coll' k = stored f k ((coll(k0 \<mapsto> v0)) k) (values_of k kvs) \<and>
                calls_for k calls' = calls_for k calls @ made f k ((coll(k0 \<mapsto> v0)) k) (values_of k kvs)"
      by blast
    have "coll' k = stored f k (coll k) (values_of k (kv # kvs)) \<and>
          calls_for k calls' = calls_for k calls @ made f k (coll k) (values_of k (kv # kvs))" for k
      using p [of k] None by (cases "k = k0") (simp_all add: kv values_of_Cons)
    with step r show ?thesis by simp
  next
    case (Some old)
    have step: "CombineEntries_loop assertK assertV (logged_combine f) (entry # entries) coll calls
        = CombineEntries_loop assertK assertV (logged_combine f) entries
            (coll(k0 \<mapsto> f old v0 k0)) (calls @ [(old, v0, k0)])"
      using Some a by (simp add: logged_combine_def)
    from Cons.IH [of "coll(k0 \<mapsto> f old v0 k0)" "calls @ [(old, v0, k0)]"] obtain coll' calls' where
      r: "CombineEntries_loop assertK assertV (logged_combine f) entries
            (coll(k0 \<mapsto> f old v0 k0)) (calls @ [(old, v0, k0)]) = Inr (coll', calls')"
      and p: "\<And>k. coll' k = stored f k ((coll(k0 \<mapsto> f old v0 k0)) k) (values_of k kvs) \<and>
                calls_for k calls' = calls_for k (calls @ [(old, v0, k0)])
                   @ made f k ((coll(k0 \<mapsto> f old v0 k0)) k) (values_of k kvs)"
      by blast
    have "coll' k = stored f k (coll k) (values_of k (kv # kvs)) \<and>
          calls_for k calls' = calls_for k calls @ made f k (coll k) (values_of k (kv # kvs))" for k
      using p [of k] Some by (cases "k = k0") (simp_all add: kv values_of_Cons calls_for_snoc)
    with step r show ?thesis by simp
  qed
qed

text \<open>
  C5. For entries whose keys and values have the declared types (\<open>kvs\<close> are the typed
  entries), \<^verbatim>\<open>CombineEntries\<close> returns a collection, and for every key: with no
  occurrence the key is absent and no call is made for it; with the occurrences
  \<open>v, v1, ..., vn\<close> in input order the stored value is the left fold
  \<open>combine(...combine(combine(v, v1), v2)..., vn)\<close>, the calls made for the key are exactly
  the calls of that fold in that order, and there are \<open>n\<close> of them, one less than the
  number of occurrences.
\<close>

theorem CombineEntries_folds:
  assumes "list_all2 (\<lambda>entry (k, v). assertK (fst entry) = Some k \<and> assertV (snd entry) = Some v)
             entries kvs"
  shows "\<exists>coll calls.
           CombineEntries assertK assertV entries (logged_combine f) [] = Inr (coll, calls) \<and>
           (\<forall>k. case values_of k kvs of
                  [] \<Rightarrow> coll k = None \<and> calls_for k calls = []
                | v # vs \<Rightarrow>
                    coll k = Some (foldl (\<lambda>a b. f a b k) v vs) \<and>
                    calls_for k calls = fold_calls f k v vs \<and>
                    length (calls_for k calls) = length vs)"
proof -
  from CombineEntries_loop_typed [OF assms, of f New "[]"] obtain coll calls where
    r: "CombineEntries_loop assertK assertV (logged_combine f) entries New [] = Inr (coll, calls)"
    and p: "\<And>k. coll k = stored f k (New k) (values_of k kvs) \<and>
                calls_for k calls = calls_for k [] @ made f k (New k) (values_of k kvs)"
    by blast
  have "case values_of k kvs of
          [] \<Rightarrow> coll k = None \<and> calls_for k calls = []
        | v # vs \<Rightarrow>
            coll k = Some (foldl (\<lambda>a b. f a b k) v vs) \<and>
            calls_for k calls = fold_calls f k v vs \<and>
            length (calls_for k calls) = length vs" for k
    using p [of k]
    by (simp add: New_def calls_for_def stored_Some made_Some length_fold_calls split: list.split)
  with r show ?thesis
    unfolding CombineEntries_def by blast
qed

text \<open>The scenario: \<open>[("k",5),("k",10),("k",15)]\<close> with \<open>multiply\<close> gives \<open>{"k": 750}\<close>.\<close>

theorem CombineEntries_folds_witness:
  "list_all2 (\<lambda>entry (k, v). assert_string (fst entry) = Some k \<and> assert_int (snd entry) = Some v)
     [(GoString ''k'', GoInt 5), (GoString ''k'', GoInt 10), (GoString ''k'', GoInt 15)]
     [(''k'', 5), (''k'', 10), (''k'', 15)] \<and>
   CombineEntries assert_string assert_int
     [(GoString ''k'', GoInt 5), (GoString ''k'', GoInt 10), (GoString ''k'', GoInt 15)]
     (logged_combine multiply) []
   = Inr ([''k'' \<mapsto> 750], [(5, 10, ''k''), (50, 15, ''k'')])"
proof -
  have t: "list_all2 (\<lambda>entry (k, v). assert_string (fst entry) = Some k \<and> assert_int (snd entry) = Some v)
       [(GoString ''k'', GoInt 5), (GoString ''k'', GoInt 10), (GoString ''k'', GoInt 15)]
       [(''k'', 5), (''k'', 10), (''k'', 15)]"
    by simp
  from CombineEntries_folds [OF t, of multiply] t show ?thesis
    by (simp add: CombineEntries_def New_def logged_combine_def multiply_def)
qed


lemma CombineEntries_ill_typed:
  "CombineEntries assert_string assert_int [(GoString ''k'', GoInt 5), (GoInt 1, GoInt 10)]
     (logged_combine multiply) [] = Inl InterfaceConversion"
  by (simp add: CombineEntries_def New_def)

subsection \<open>C6: union\<close>

text \<open>
  C6. When \<open>rA\<close> and \<open>rB\<close> are the entries that the two range statements of
  \<^verbatim>\<open>A.Union(B)\<close> yield, the result has exactly the keys of \<open>A\<close> and of \<open>B\<close>, and a key
  present in both keeps the value of \<open>A\<close>.
\<close>

theorem Union_keys_values:
  assumes "range_of A rA" and "range_of B rB"
  shows "dom (Union rA rB) = dom A \<union> dom B \<and>
         (\<forall>k. k \<in> dom A \<and> k \<in> dom B \<longrightarrow> Union rA rB k = A k)"
proof -
  have eq: "Union rA rB = B ++ A"
    using assms by (rule Union_eq)
  have "dom (B ++ A) = dom A \<union> dom B" by auto
  moreover have "(B ++ A) k = A k" if "k \<in> dom A" for k
    using that by (auto simp: map_add_def)
  ultimately show ?thesis by (simp add: eq)
qed

theorem Union_keys_values_witness:
  "range_of A0 [(''y'', 2), (''x'', 1)] \<and> range_of B0 [(''z'', 30), (''y'', 20)] \<and>
   dom (Union [(''y'', 2), (''x'', 1)] [(''z'', 30), (''y'', 20 :: int)]) = {''x'', ''y'', ''z''} \<and>
   Union [(''y'', 2), (''x'', 1)] [(''z'', 30), (''y'', 20 :: int)] ''y'' = Some 2"
  using Union_keys_values [OF range_A0_yx range_B0_zy] range_A0_yx range_B0_zy
  by (auto simp: A0_def B0_def)

subsection \<open>C7: inclusion and exclusion\<close>

text \<open>
  C7. \<^verbatim>\<open>Union(A,B).Size() + Intersection(A,B).Size() == A.Size() + B.Size()\<close>, whatever
  orders the range statements of the two calls take.
\<close>

theorem Union_Intersection_Size:
  assumes "range_of A rA" and "range_of A rA'" and "range_of B rB"
  shows "Size (Union rA rB) + Size (Intersection rA' B) = Size A + Size B"
proof -
  have fin: "finite (dom A)" "finite (dom B)"
    using assms by (auto dest: range_of_finite)
  have "dom (Union rA rB) = dom A \<union> dom B"
    using assms by (auto simp: Union_eq)
  moreover have "dom (Intersection rA' B) = dom A \<inter> dom B"
    using assms by (auto simp: Intersection_eq)
  ultimately show ?thesis
    using card_Un_Int [OF fin] by (simp add: Size_def)
qed

theorem Union_Intersection_Size_witness:
  "range_of A0 [(''y'', 2), (''x'', 1)] \<and> range_of A0 [(''x'', 1), (''y'', 2)] \<and>
   range_of B0 [(''z'', 30), (''y'', 20)] \<and>
   Size (Union [(''y'', 2), (''x'', 1)] [(''z'', 30), (''y'', 20 :: int)])
     + Size (Intersection [(''x'', 1), (''y'', 2 :: int)] B0) = 4"
  using Union_Intersection_Size [OF range_A0_yx range_A0_xy range_B0_zy]
    range_A0_yx range_A0_xy range_B0_zy
  by (simp add: A0_def B0_def Size_def)

subsection \<open>C8: GroupBy\<close>

lemma sent_to_Nil: "sent_to f n [] k = []"
  by (simp add: sent_to_def)

lemma sent_to_Cons:
  "sent_to f n (x # xs) k = (if f x (int n) = k then [x] else []) @ sent_to f (Suc n) xs k"
  by (simp add: sent_to_def)

lemma GroupBy_fold:
  "fold (\<lambda>(i, item) (res, s).
           (case logged_selector f item (int i) s of (k, s') \<Rightarrow>
              (res(k \<mapsto> items_at res k @ [item]), s')))
     (enumerate n items) (res, calls)
   = (\<lambda>k. if sent_to f n items k = [] then res k
           else Some (items_at res k @ sent_to f n items k),
      calls @ map (\<lambda>(i, item). (item, int i)) (enumerate n items))"
proof (induction items arbitrary: n res calls)
  case Nil
  then show ?case by (simp add: sent_to_Nil)
next
  case (Cons x xs)
  let ?step = "\<lambda>(i, item) (res, s).
           (case logged_selector f item (int i) s of (k, s') \<Rightarrow>
              (res(k \<mapsto> items_at res k @ [item]), s'))"
  let ?res = "res(f x (int n) \<mapsto> items_at res (f x (int n)) @ [x])"
  have m: "(\<lambda>k. if sent_to f (Suc n) xs k = [] then ?res k
                else Some (items_at ?res k @ sent_to f (Suc n) xs k))
         = (\<lambda>k. if sent_to f n (x # xs) k = [] then res k
                else Some (items_at res k @ sent_to f n (x # xs) k))"
    by (rule ext) (simp add: sent_to_Cons items_at_def)
  have "fold ?step (enumerate n (x # xs)) (res, calls)
      = fold ?step (enumerate (Suc n) xs) (?res, calls @ [(x, int n)])"
    by (simp add: logged_selector_def)
  also have "\<dots> = (\<lambda>k. if sent_to f (Suc n) xs k = [] then ?res k
                else Some (items_at ?res k @ sent_to f (Suc n) xs k),
      (calls @ [(x, int n)]) @ map (\<lambda>(i, item). (item, int i)) (enumerate (Suc n) xs))"
    by (rule Cons.IH)
  also have "\<dots> = (\<lambda>k. if sent_to f n (x # xs) k = [] then res k
                else Some (items_at res k @ sent_to f n (x # xs) k),
      calls @ map (\<lambda>(i, item). (item, int i)) (enumerate n (x # xs)))"
    by (simp only: m) simp
  finally show ?case .
qed

text \<open>
  C8. \<^verbatim>\<open>GroupBy\<close> calls the selector once per item, in input order, with the item and
  its zero-based position; the result maps a key to the items the selector sent to it, in
  their input order, and holds no other key.
\<close>

theorem GroupBy_groups:
  "GroupBy items (logged_selector f) [] =
     (\<lambda>k. if sent_to f 0 items k = [] then None else Some (sent_to f 0 items k),
      map (\<lambda>(i, item). (item, int i)) (enumerate 0 items))"
proof -
  have e: "items_at New k = []" for k
    by (simp add: items_at_def New_def default_list_def)
  have n: "New k = None" for k
    by (simp add: New_def)
  show ?thesis
    unfolding GroupBy_def GroupBy_fold e n by (simp cong: if_cong)
qed

text \<open>The scenario \<^verbatim>\<open>GroupBy([1,2,3,4,5,6], even or odd)\<close>.\<close>

theorem GroupBy_groups_witness:
  "fst (GroupBy [1, 2, 3, 4, 5, 6] (logged_selector parity) []) ''even'' = Some [2, 4, 6] \<and>
   fst (GroupBy [1, 2, 3, 4, 5, 6] (logged_selector parity) []) ''odd'' = Some [1, 3, 5] \<and>
   dom (fst (GroupBy [1, 2, 3, 4, 5, 6] (logged_selector parity) [])) = {''even'', ''odd''}"
  by (auto simp: GroupBy_groups sent_to_def parity_def enumerate_eq_zip upt_rec dom_def split: if_splits)

subsection \<open>C9: ToReversed and ToSorted\<close>

text \<open>
  C9. For a collection \<open>c\<close> of the store, \<^verbatim>\<open>ToReversed\<close> and \<^verbatim>\<open>ToSorted\<close> each return a
  pointer to a new object (not \<open>c\<close>, and no object of the store before the call) and leave
  every object that existed before the call, \<open>c\<close> among them, with the entries it had.
\<close>

theorem ToReversed_ToSorted_frame:
  assumes "c < length st"
  shows "(case ToReversed r r_clone st c of (res, st') \<Rightarrow>
            res \<noteq> c \<and> length st \<le> res \<and> res < length st' \<and> (\<forall>p < length st. st' ! p = st ! p)) \<and>
         (case ToSorted r r_clone compare st c of (res, st') \<Rightarrow>
            res \<noteq> c \<and> length st \<le> res \<and> res < length st' \<and> (\<forall>p < length st. st' ! p = st ! p))"
  using assms
  by (simp add: ToReversed_def ToSorted_def Clone_at_def New_at_def Reverse_at_def Sort_at_def
      nth_append)

theorem ToReversed_ToSorted_frame_witness:
  "(0::nat) < length [A0] \<and>
   fst (ToReversed [(''y'', 2), (''x'', 1)] [(''x'', 1), (''y'', 2)] [A0] 0) = 1 \<and>
   snd (ToReversed [(''y'', 2), (''x'', 1)] [(''x'', 1), (''y'', 2)] [A0] 0) ! 0 = A0 \<and>
   fst (ToSorted [(''y'', 2), (''x'', 1)] [(''x'', 1), (''y'', 2)] (\<lambda>a b ka kb. 0) [A0] 0) = 1 \<and>
   snd (ToSorted [(''y'', 2), (''x'', 1)] [(''x'', 1), (''y'', 2)] (\<lambda>a b ka kb. 0) [A0] 0) ! 0 = A0"
  using ToReversed_ToSorted_frame [of 0 "[A0]" "[(''y'', 2), (''x'', 1)]" "[(''x'', 1), (''y'', 2)]" "\<lambda>a b ka kb. 0"]
  by (simp add: ToReversed_def ToSorted_def Clone_at_def New_at_def Reverse_at_def Sort_at_def)

subsection \<open>C10: At and KeyAt\<close>

text \<open>
  C10. \<^verbatim>\<open>At(i)\<close> and \<^verbatim>\<open>KeyAt(i)\<close> report found for the same indices, whatever key
  snapshots the two calls take: exactly when \<open>i\<close>, plus the size if it is negative, lies
  in \<open>[0, Size)\<close>. Over the same snapshot, the value of \<^verbatim>\<open>At(i)\<close> is the value the
  collection holds for the key of \<^verbatim>\<open>KeyAt(i)\<close>.
\<close>

theorem At_KeyAt_agree:
  fixes c :: "'k::default \<rightharpoonup> 'v::default"
  assumes "range_of c r" and "range_of c r'"
  shows "snd (At r c i) = snd (KeyAt r' i) \<and>
         (snd (At r c i) \<longleftrightarrow>
            (let j = (if i < 0 then i + Size c else i) in 0 \<le> j \<and> j < Size c)) \<and>
         (snd (At r c i) \<longrightarrow> c (fst (KeyAt r i)) = Some (fst (At r c i)))"
proof -
  define j where "j = (if i < 0 then i + Size c else i)"
  have sz: "len (map fst r) = Size c" "len (map fst r') = Size c"
    using range_of_Size [OF assms(1)] range_of_Size [OF assms(2)]
    by (simp_all add: len_def)
  have at: "At r c i = (if j < 0 \<or> j \<ge> Size c then (default, False)
                        else (items_at c (map fst r ! nat j), True))"
    by (simp add: At_def Let_def sz j_def keysUnlocked_eq)
  have keyat: "KeyAt r i = (if j < 0 \<or> j \<ge> Size c then (default, False)
                            else (map fst r ! nat j, True))"
    by (simp add: KeyAt_def Let_def sz j_def keysUnlocked_eq)
  have found': "snd (KeyAt r' i) \<longleftrightarrow> 0 \<le> j \<and> j < Size c"
    by (auto simp: KeyAt_def Let_def sz j_def keysUnlocked_eq)
  have found: "snd (At r c i) \<longleftrightarrow> 0 \<le> j \<and> j < Size c"
    by (auto simp: at)
  have val: "c (fst (KeyAt r i)) = Some (fst (At r c i))" if "snd (At r c i)"
  proof -
    from that found have j: "0 \<le> j" "j < Size c" by simp_all
    then have "nat j < length (map fst r)"
      using range_of_Size [OF assms(1)] by (simp add: len_def)
    then have "map fst r ! nat j \<in> set (map fst r)"
      by (rule nth_mem)
    then have "map fst r ! nat j \<in> dom c"
      using assms(1) by (simp only: range_of_dom)
    then obtain v where v: "c (map fst r ! nat j) = Some v" by blast
    from j v show ?thesis
      by (simp add: at keyat items_at_def)
  qed
  from found found' val show ?thesis
    unfolding Let_def j_def by blast
qed

theorem At_KeyAt_agree_witness:
  "range_of A0 [(''y'', 2), (''x'', 1)] \<and> range_of A0 [(''x'', 1), (''y'', 2)] \<and>
   At [(''y'', 2), (''x'', 1)] A0 (- 1) = (1, True) \<and>
   KeyAt [(''y'', 2 :: int), (''x'', 1)] (- 1) = (''x'', True) \<and>
   KeyAt [(''x'', 1 :: int), (''y'', 2)] (- 1) = (''y'', True) \<and>
   At [(''y'', 2), (''x'', 1)] A0 2 = (0, False)"
  using At_KeyAt_agree [OF range_A0_yx range_A0_xy, of "- 1"] range_A0_yx range_A0_xy
  by (simp add: At_def KeyAt_def keysUnlocked_def len_def items_at_def A0_def default_int_def)

end
